theory Spec2Isabelle
  imports Main "HOL-Library.AList" "HOL-Library.Sublist"
begin

section \<open>The each-scheduler of xdist (src/xdist/scheduler/each.py)\<close>

text \<open>
  The class \<^verbatim>\<open>EachScheduling\<close> keeps four dictionaries and lists of worker
  handles, one flag and two configuration values. Every method is a synchronous state
  transition; the embedding passes the object explicitly and returns it updated.

  \<^item> A Python \<^verbatim>\<open>dict\<close> keeps its keys in insertion order and two loops of the
    class iterate over one, so a dictionary is an association list in insertion
    order: \<^verbatim>\<open>d[k] = v\<close> is \<open>AList.update\<close> (an existing key keeps its place, a new
    one goes last), \<^verbatim>\<open>d.pop(k)\<close> is a lookup followed by \<open>AList.delete\<close>,
    \<^verbatim>\<open>d[k]\<close> is \<open>map_of\<close> with \<open>None\<close> raising \<^verbatim>\<open>KeyError\<close>,
    \<^verbatim>\<open>len(d)\<close> is \<open>length\<close>. A dictionary never holds a key twice; the predicate
    \<open>keys_distinct\<close> states it for the three dictionaries.
  \<^item> An exception is a value of \<open>py_error\<close>. A method that has changed nothing
    when it raises returns \<open>py_error + \<dots>\<close>; \<^verbatim>\<open>remove_node\<close> and
    \<^verbatim>\<open>schedule\<close> can raise after they have changed the object, so they return the
    object they leave behind next to the error.
  \<^item> The calls on collaborators (commands to workers, messages to the log) are
    returned as lists, in the order they are made.
  \<^item> Item indices are Python integers (\<open>int\<close>); indexing a list with a negative
    integer counts from its end.
  \<^item> An \<^verbatim>\<open>assert\<close> raises \<^verbatim>\<open>AssertionError\<close> (the interpreter is not run
    with assertions stripped).
\<close>

subsection \<open>Data\<close>

text \<open>
  A \<^verbatim>\<open>WorkerController\<close> is used as a dictionary key and compared with
  \<^verbatim>\<open>in\<close>, by object identity (\<open>ident\<close>); the scheduler reads
  \<^verbatim>\<open>node.gateway.id\<close> and \<^verbatim>\<open>node.gateway.spec\<close> of it.
\<close>

record WorkerController =
  ident :: nat
  gateway_id :: string
  gateway_spec :: string

datatype py_error = AssertionError | KeyError | ValueError | IndexError

text \<open>The three methods of a worker that \<^verbatim>\<open>schedule\<close> calls.\<close>

datatype command = shutdown | send_runtest_all | send_runtest_some "int list"

text \<open>
  \<^verbatim>\<open>self.log(report_collection_diff(dead_collection, collection, dead_id, new_id))\<close>:
  the function \<^verbatim>\<open>report_collection_diff\<close> lives in \<^verbatim>\<open>xdist.report\<close>, outside
  the scheduler, and the scheduler does not look at the message it builds; a logged
  message is represented by the four arguments it is built from.
\<close>

datatype log_message = report_collection_diff "string list" "string list" string string

record EachScheduling =
  numnodes :: nat
  node2collection :: "(WorkerController \<times> string list) list"
  node2pending :: "(WorkerController \<times> int list) list"
  started :: "WorkerController list"
  removed2pending :: "(WorkerController \<times> int list) list"
  collection_is_completed :: bool
  allowed_workers :: "string set"

text \<open>
  \<^verbatim>\<open>__init__\<close>: \<open>n\<close> is \<^verbatim>\<open>len(parse_tx_spec_config(config))\<close> and \<open>aw\<close> the
  set parsed from the environment variable \<^verbatim>\<open>XDIST_ALLOWED_WORKERS\<close>.
\<close>

definition init :: "nat \<Rightarrow> string set \<Rightarrow> EachScheduling" where
  "init n aw =
     \<lparr> numnodes = n, node2collection = [], node2pending = [], started = [],
       removed2pending = [], collection_is_completed = False, allowed_workers = aw \<rparr>"

definition keys_distinct :: "EachScheduling \<Rightarrow> bool" where
  "keys_distinct s \<longleftrightarrow>
     distinct (map fst (node2collection s)) \<and> distinct (map fst (node2pending s)) \<and>
     distinct (map fst (removed2pending s))"

text \<open>\<^verbatim>\<open>xs[i]\<close> for a Python list and integer.\<close>

definition py_getitem :: "'a list \<Rightarrow> int \<Rightarrow> 'a option" where
  "py_getitem xs i =
     (let n = int (length xs); j = (if i < 0 then n + i else i)
      in if 0 \<le> j \<and> j < n then Some (xs ! nat j) else None)"

text \<open>\<^verbatim>\<open>list(range(n))\<close>.\<close>

definition py_range :: "nat \<Rightarrow> int list" where
  "py_range n = map int [0..<n]"

subsection \<open>Queries\<close>

definition is_allowed_worker :: "EachScheduling \<Rightarrow> WorkerController \<Rightarrow> bool" where
  "is_allowed_worker s node =
     (if allowed_workers s = {} then True else gateway_id node \<in> allowed_workers s)"

definition nodes :: "EachScheduling \<Rightarrow> WorkerController list" where
  "nodes s = map fst (node2pending s)"

text \<open>The loop of \<^verbatim>\<open>tests_finished\<close> over \<^verbatim>\<open>self.node2pending.values()\<close>.\<close>

fun tests_finished_loop :: "int list list \<Rightarrow> bool" where
  "tests_finished_loop [] = True"
| "tests_finished_loop (pending # rest) =
     (if length pending \<ge> 2 then False else tests_finished_loop rest)"

definition tests_finished :: "EachScheduling \<Rightarrow> bool" where
  "tests_finished s =
     (if \<not> collection_is_completed s then False
      else if removed2pending s \<noteq> [] then False
      else tests_finished_loop (map snd (node2pending s)))"

fun has_pending_loop :: "int list list \<Rightarrow> bool" where
  "has_pending_loop [] = False"
| "has_pending_loop (pending # rest) =
     (if pending \<noteq> [] then True else has_pending_loop rest)"

definition has_pending :: "EachScheduling \<Rightarrow> bool" where
  "has_pending s = has_pending_loop (map snd (node2pending s))"

subsection \<open>Operations\<close>

definition add_node :: "EachScheduling \<Rightarrow> WorkerController \<Rightarrow> py_error + EachScheduling" where
  "add_node s node =
     (if map_of (node2pending s) node \<noteq> None then Inl AssertionError
      else Inr (s\<lparr>node2pending := AList.update node [] (node2pending s)\<rparr>))"

text \<open>
  The loop of \<^verbatim>\<open>add_node_collection\<close> over the keys of
  \<^verbatim>\<open>self._removed2pending\<close>, entered once collection is complete. It ends at the
  first dead node of the same spec: with \<^verbatim>\<open>return\<close> after logging when the
  collections differ, with \<^verbatim>\<open>break\<close> after the hand-off otherwise. The reported
  collection is a list, as the recorded one is, so \<^verbatim>\<open>!=\<close> compares the two
  element by element.
\<close>

fun handoff_loop ::
  "EachScheduling \<Rightarrow> WorkerController \<Rightarrow> string list \<Rightarrow> WorkerController list \<Rightarrow>
   py_error + (EachScheduling \<times> log_message list)" where
  "handoff_loop s node collection [] = Inr (s, [])"
| "handoff_loop s node collection (deadnode # rest) =
     (if gateway_spec deadnode = gateway_spec node then
        (case map_of (node2collection s) deadnode of
           None \<Rightarrow> Inl KeyError
         | Some dead_collection \<Rightarrow>
             if collection \<noteq> dead_collection then
               Inr (s, [report_collection_diff dead_collection collection
                          (gateway_id deadnode) (gateway_id node)])
             else
               (case map_of (removed2pending s) deadnode of
                  None \<Rightarrow> Inl KeyError
                | Some pending \<Rightarrow>
                    Inr (s\<lparr>removed2pending := AList.delete deadnode (removed2pending s),
                           node2pending := AList.update node pending (node2pending s)\<rparr>, [])))
      else handoff_loop s node collection rest)"

definition add_node_collection ::
  "EachScheduling \<Rightarrow> WorkerController \<Rightarrow> string list \<Rightarrow>
   py_error + (EachScheduling \<times> log_message list)" where
  "add_node_collection s node collection =
     (if map_of (node2pending s) node = None then Inl AssertionError
      else if \<not> collection_is_completed s then
        (let n2c = AList.update node collection (node2collection s) in
         Inr (s\<lparr>node2collection := n2c,
                node2pending := AList.update node [] (node2pending s),
                collection_is_completed :=
                  (if length n2c \<ge> numnodes s then True else collection_is_completed s)\<rparr>, []))
      else if removed2pending s \<noteq> [] then
        handoff_loop s node collection (map fst (removed2pending s))
      else Inr (s, []))"

text \<open>
  \<^verbatim>\<open>self.node2pending[node].remove(item_index)\<close>: \<^verbatim>\<open>KeyError\<close> for an
  unknown node, \<^verbatim>\<open>ValueError\<close> when the index is not in the list; otherwise the
  first occurrence goes. The parameter \<^verbatim>\<open>duration\<close> is not used.
\<close>

definition mark_test_complete ::
  "EachScheduling \<Rightarrow> WorkerController \<Rightarrow> int \<Rightarrow> py_error + EachScheduling" where
  "mark_test_complete s node item_index =
     (case map_of (node2pending s) node of
        None \<Rightarrow> Inl KeyError
      | Some pending \<Rightarrow>
          if item_index \<in> set pending then
            Inr (s\<lparr>node2pending := AList.update node (remove1 item_index pending) (node2pending s)\<rparr>)
          else Inl ValueError)"

text \<open>
  \<^verbatim>\<open>remove_node\<close>. In \<^verbatim>\<open>self.node2collection[node][pending.pop(0)]\<close> the
  dictionary is read first, then the head is popped, then the list is indexed; each
  of the two reads can raise when the entry of \<^verbatim>\<open>node2pending\<close> is already gone.
\<close>

definition remove_node ::
  "EachScheduling \<Rightarrow> WorkerController \<Rightarrow> (py_error + string option) \<times> EachScheduling" where
  "remove_node s node =
     (case map_of (node2pending s) node of
        None \<Rightarrow> (Inl KeyError, s)
      | Some pending \<Rightarrow>
          (let s1 = s\<lparr>node2pending := AList.delete node (node2pending s)\<rparr> in
           case pending of
             [] \<Rightarrow> (Inr None, s1)
           | h # rest \<Rightarrow>
               (case map_of (node2collection s1) node of
                  None \<Rightarrow> (Inl KeyError, s1)
                | Some coll \<Rightarrow>
                    (case py_getitem coll h of
                       None \<Rightarrow> (Inl IndexError, s1)
                     | Some crashitem \<Rightarrow>
                         (Inr (Some crashitem),
                          if rest \<noteq> [] then
                            s1\<lparr>removed2pending := AList.update node rest (removed2pending s1)\<rparr>
                          else s1)))))"

text \<open>
  The loop of \<^verbatim>\<open>schedule\<close> over \<^verbatim>\<open>self.node2pending.items()\<close>. Each
  item holds the list object of its entry, and \<^verbatim>\<open>pending[:] = range(...)\<close>
  overwrites that object in place, so the loop returns the items as it leaves them,
  entry by entry; \<open>st\<close> is \<^verbatim>\<open>self._started\<close>. The last component lists the
  calls made on workers, in order. When \<^verbatim>\<open>self.node2collection[node]\<close> raises,
  the entries and workers handled before keep what the loop did to them.
\<close>

fun schedule_loop ::
  "EachScheduling \<Rightarrow> WorkerController list \<Rightarrow> (WorkerController \<times> int list) list \<Rightarrow>
   py_error option \<times> WorkerController list \<times> (WorkerController \<times> int list) list \<times>
   (WorkerController \<times> command) list" where
  "schedule_loop self st [] = (None, st, [], [])"
| "schedule_loop self st ((node, pending) # rest) =
     (if node \<in> set st then
        (case schedule_loop self st rest of
           (e, st', items', cs) \<Rightarrow> (e, st', (node, pending) # items', cs))
      else if \<not> is_allowed_worker self node then
        (case schedule_loop self (st @ [node]) rest of
           (e, st', items', cs) \<Rightarrow> (e, st', (node, pending) # items', (node, shutdown) # cs))
      else if pending = [] then
        (case map_of (node2collection self) node of
           None \<Rightarrow> (Some KeyError, st, (node, pending) # rest, [])
         | Some coll \<Rightarrow>
             (case schedule_loop self (st @ [node]) rest of
                (e, st', items', cs) \<Rightarrow>
                  (e, st', (node, py_range (length coll)) # items',
                   (node, send_runtest_all) # (node, shutdown) # cs)))
      else
        (case schedule_loop self (st @ [node]) rest of
           (e, st', items', cs) \<Rightarrow>
             (e, st', (node, pending) # items', (node, send_runtest_some pending) # cs)))"

definition schedule ::
  "EachScheduling \<Rightarrow> py_error option \<times> EachScheduling \<times> (WorkerController \<times> command) list" where
  "schedule s =
     (if \<not> collection_is_completed s then (Some AssertionError, s, [])
      else
        (case schedule_loop s (started s) (node2pending s) of
           (e, st', items', cs) \<Rightarrow> (e, s\<lparr>node2pending := items', started := st'\<rparr>, cs)))"

text \<open>The calls a list of commands makes on one worker.\<close>

definition commands_to ::
  "WorkerController \<Rightarrow> (WorkerController \<times> command) list \<Rightarrow> command list" where
  "commands_to w cs = map snd (filter (\<lambda>nc. fst nc = w) cs)"

subsection \<open>Runs\<close>

text \<open>
  The run loop drives the scheduler by one call after the other. \<open>after s e\<close> is the
  object as the call \<open>e\<close> leaves it, whether the call returns or raises.
\<close>

datatype event =
    Join WorkerController
  | Report WorkerController "string list"
  | Complete WorkerController int
  | Remove WorkerController
  | Dispatch

fun after :: "EachScheduling \<Rightarrow> event \<Rightarrow> EachScheduling" where
  "after s (Join node) = (case add_node s node of Inl e \<Rightarrow> s | Inr s' \<Rightarrow> s')"
| "after s (Report node collection) =
     (case add_node_collection s node collection of Inl e \<Rightarrow> s | Inr (s', msgs) \<Rightarrow> s')"
| "after s (Complete node item_index) =
     (case mark_test_complete s node item_index of Inl e \<Rightarrow> s | Inr s' \<Rightarrow> s')"
| "after s (Remove node) = snd (remove_node s node)"
| "after s Dispatch = fst (snd (schedule s))"

definition run :: "EachScheduling \<Rightarrow> event list \<Rightarrow> EachScheduling" where
  "run s es = foldl after s es"

subsection \<open>Predicates of the properties\<close>

text \<open>
  Every index of a registered worker's pending list is an index into the collection
  recorded for that worker.
\<close>

definition index_ok :: "EachScheduling \<Rightarrow> WorkerController \<times> int list \<Rightarrow> bool" where
  "index_ok s = (\<lambda>(node, pending).
     list_all (\<lambda>i. case map_of (node2collection s) node of
                       None \<Rightarrow> False
                     | Some coll \<Rightarrow> 0 \<le> i \<and> i < int (length coll)) pending)"

definition indices_in_range :: "EachScheduling \<Rightarrow> bool" where
  "indices_in_range s = list_all (index_ok s) (node2pending s)"

text \<open>
  \<^verbatim>\<open>schedule\<close> reads \<^verbatim>\<open>self.node2collection[node]\<close> for a node that is not
  started, is allowed and has an empty pending list; \<open>dispatchable\<close> says that each
  such node has a recorded collection.
\<close>

definition dispatchable :: "EachScheduling \<Rightarrow> bool" where
  "dispatchable s =
     list_all (\<lambda>(node, pending). node \<in> set (started s) \<or> \<not> is_allowed_worker s node \<or>
        pending \<noteq> [] \<or> map_of (node2collection s) node \<noteq> None) (node2pending s)"

text \<open>
  What one pass of \<^verbatim>\<open>schedule\<close> does for a node it has not started: the pending
  list it leaves and the calls it makes on the node; \<open>None\<close> when the lookup of the
  node's collection raises.
\<close>

definition expected_for ::
  "EachScheduling \<Rightarrow> WorkerController \<Rightarrow> int list \<Rightarrow> (int list \<times> command list) option" where
  "expected_for self w pending =
     (if \<not> is_allowed_worker self w then Some (pending, [shutdown])
      else if pending = [] then
        (case map_of (node2collection self) w of
           None \<Rightarrow> None
         | Some coll \<Rightarrow> Some (py_range (length coll), [send_runtest_all, shutdown]))
      else Some (pending, [send_runtest_some pending]))"

text \<open>Every pending list, of a live or of a removed node, is strictly increasing.\<close>

definition pending_increasing :: "EachScheduling \<Rightarrow> bool" where
  "pending_increasing s \<longleftrightarrow>
     list_all (\<lambda>(node, pending). sorted_wrt (<) pending) (node2pending s) \<and>
     list_all (\<lambda>(node, pending). sorted_wrt (<) pending) (removed2pending s)"

subsection \<open>Workers of the examples\<close>

text \<open>Three workers launched from the same spec and one from another.\<close>

abbreviation w0 :: WorkerController where
  "w0 \<equiv> \<lparr>ident = 0, gateway_id = ''gw0'', gateway_spec = ''popen''\<rparr>"

abbreviation w1 :: WorkerController where
  "w1 \<equiv> \<lparr>ident = 1, gateway_id = ''gw1'', gateway_spec = ''popen''\<rparr>"

abbreviation w2 :: WorkerController where
  "w2 \<equiv> \<lparr>ident = 2, gateway_id = ''gw2'', gateway_spec = ''popen''\<rparr>"

abbreviation w3 :: WorkerController where
  "w3 \<equiv> \<lparr>ident = 3, gateway_id = ''gw3'', gateway_spec = ''ssh=host''\<rparr>"

section \<open>Properties\<close>

lemmas op_defs = run_def init_def add_node_def add_node_collection_def mark_test_complete_def
  remove_node_def schedule_def is_allowed_worker_def py_range_def py_getitem_def commands_to_def

subsection \<open>Dictionaries and lists\<close>

lemma list_all_update:
  "list_all P al \<Longrightarrow> P (k, v) \<Longrightarrow> list_all P (AList.update k v al)"
  by (induction al) auto

lemma list_all_delete: "list_all P al \<Longrightarrow> list_all P (AList.delete k al)"
  by (simp add: AList.delete_eq list_all_iff)

lemma list_all_map_of: "list_all P al \<Longrightarrow> map_of al k = Some v \<Longrightarrow> P (k, v)"
  by (auto simp: list_all_iff dest: map_of_SomeD)

lemma set_update_distinct:
  "distinct (map fst al) \<Longrightarrow> (k, v) \<in> set (AList.update w x al) \<Longrightarrow>
     (k = w \<and> v = x) \<or> (k \<noteq> w \<and> (k, v) \<in> set al)"
  by (induction al) (auto split: if_splits simp: rev_image_eqI)

lemma sorted_wrt_remove1_less: "sorted_wrt (<) (xs :: int list) \<Longrightarrow> sorted_wrt (<) (remove1 x xs)"
  by (induction xs) (auto dest: notin_set_remove1)

lemma sorted_wrt_py_range: "sorted_wrt (<) (py_range n)"
  by (simp add: py_range_def sorted_wrt_map)

lemma py_getitem_in_range:
  "0 \<le> i \<Longrightarrow> i < int (length xs) \<Longrightarrow> py_getitem xs i = Some (xs ! nat i)"
  by (simp add: py_getitem_def Let_def)

lemma commands_to_Nil_iff: "commands_to w cs = [] \<longleftrightarrow> w \<notin> fst ` set cs"
  by (induction cs) (auto simp: commands_to_def)

lemma commands_to_Cons:
  "commands_to w ((n, c) # cs) = (if n = w then c # commands_to w cs else commands_to w cs)"
  by (simp add: commands_to_def)

lemma tests_finished_loop_iff:
  "tests_finished_loop ps \<longleftrightarrow> (\<forall>p\<in>set ps. length p < 2)"
  by (induction ps) auto

subsection \<open>The loop of \<^verbatim>\<open>schedule\<close>\<close>

text \<open>
  One iteration of the loop, as a case rule: the node is skipped, shut down because it
  is not allowed, the lookup of its collection raises, it is sent everything, or it is
  sent its pending list.
\<close>

lemma schedule_loop_Cons_cases:
  assumes "schedule_loop self st ((node, pending) # rest) = (e, st', items', cs)"
  obtains
    (skip) items1 where "node \<in> set st" "schedule_loop self st rest = (e, st', items1, cs)"
      "items' = (node, pending) # items1"
  | (excluded) items1 cs1 where "node \<notin> set st" "\<not> is_allowed_worker self node"
      "schedule_loop self (st @ [node]) rest = (e, st', items1, cs1)"
      "items' = (node, pending) # items1" "cs = (node, shutdown) # cs1"
  | (keyerror) "node \<notin> set st" "is_allowed_worker self node" "pending = []"
      "map_of (node2collection self) node = None"
      "e = Some KeyError" "st' = st" "items' = (node, pending) # rest" "cs = []"
  | (run_all) coll items1 cs1 where "node \<notin> set st" "is_allowed_worker self node" "pending = []"
      "map_of (node2collection self) node = Some coll"
      "schedule_loop self (st @ [node]) rest = (e, st', items1, cs1)"
      "items' = (node, py_range (length coll)) # items1"
      "cs = (node, send_runtest_all) # (node, shutdown) # cs1"
  | (run_some) items1 cs1 where "node \<notin> set st" "is_allowed_worker self node" "pending \<noteq> []"
      "schedule_loop self (st @ [node]) rest = (e, st', items1, cs1)"
      "items' = (node, pending) # items1" "cs = (node, send_runtest_some pending) # cs1"
proof (cases "node \<in> set st")
  case True
  obtain e1 st1 it1 cs1 where r: "schedule_loop self st rest = (e1, st1, it1, cs1)"
    by (cases "schedule_loop self st rest") auto
  from assms True r have "e = e1 \<and> st' = st1 \<and> items' = (node, pending) # it1 \<and> cs = cs1"
    by simp
  with True r show ?thesis by (intro skip[of it1]) simp_all
next
  case nst: False
  obtain e1 st1 it1 cs1 where r: "schedule_loop self (st @ [node]) rest = (e1, st1, it1, cs1)"
    by (cases "schedule_loop self (st @ [node]) rest") auto
  show ?thesis
  proof (cases "is_allowed_worker self node")
    case False
    from assms nst False r
    have "e = e1 \<and> st' = st1 \<and> items' = (node, pending) # it1 \<and> cs = (node, shutdown) # cs1"
      by simp
    with nst False r show ?thesis by (intro excluded[of it1 cs1]) simp_all
  next
    case al: True
    show ?thesis
    proof (cases "pending = []")
      case False
      from assms nst al False r
      have "e = e1 \<and> st' = st1 \<and> items' = (node, pending) # it1 \<and>
            cs = (node, send_runtest_some pending) # cs1"
        by simp
      with nst al False r show ?thesis by (intro run_some[of it1 cs1]) simp_all
    next
      case pe: True
      show ?thesis
      proof (cases "map_of (node2collection self) node")
        case None
        from assms nst al pe None
        have "e = Some KeyError \<and> st' = st \<and> items' = (node, pending) # rest \<and> cs = []"
          by simp
        with nst al pe None show ?thesis by (intro keyerror) simp_all
      next
        case (Some coll)
        from assms nst al pe Some r
        have "e = e1 \<and> st' = st1 \<and> items' = (node, py_range (length coll)) # it1 \<and>
              cs = (node, send_runtest_all) # (node, shutdown) # cs1"
          by simp
        with nst al pe Some r show ?thesis by (intro run_all[of coll it1 cs1]) simp_all
      qed
    qed
  qed
qed

lemma schedule_loop_keys:
  "schedule_loop self st items = (e, st', items', cs) \<Longrightarrow> map fst items' = map fst items"
proof (induction items arbitrary: st e st' items' cs)
  case Nil
  then show ?case by simp
next
  case (Cons a items)
  obtain node pending where a: "a = (node, pending)" by (cases a)
  from Cons.prems[unfolded a] show ?case
    by (cases rule: schedule_loop_Cons_cases) (auto simp: a dest: Cons.IH)
qed

lemma schedule_loop_prefix:
  "schedule_loop self st items = (e, st', items', cs) \<Longrightarrow> prefix st st'"
proof (induction items arbitrary: st e st' items' cs)
  case Nil
  then show ?case by simp
next
  case (Cons a items)
  obtain node pending where a: "a = (node, pending)" by (cases a)
  from Cons.prems[unfolded a] show ?case
    by (cases rule: schedule_loop_Cons_cases) (auto dest: Cons.IH append_prefixD)
qed

lemma schedule_loop_distinct:
  "schedule_loop self st items = (e, st', items', cs) \<Longrightarrow> distinct st \<Longrightarrow> distinct st'"
proof (induction items arbitrary: st e st' items' cs)
  case Nil
  then show ?case by simp
next
  case (Cons a items)
  obtain node pending where a: "a = (node, pending)" by (cases a)
  from Cons.prems(1)[unfolded a] Cons.prems(2) show ?case
    by (cases rule: schedule_loop_Cons_cases) (auto dest: Cons.IH)
qed

lemma schedule_loop_commands:
  "schedule_loop self st items = (e, st', items', cs) \<Longrightarrow> (n, c) \<in> set cs \<Longrightarrow>
     n \<notin> set st \<and> n \<in> set st'"
proof (induction items arbitrary: st e st' items' cs)
  case Nil
  then show ?case by simp
next
  case (Cons a items)
  obtain node pending where a: "a = (node, pending)" by (cases a)
  from Cons.prems(1)[unfolded a] show ?case
  proof (cases rule: schedule_loop_Cons_cases)
    case (skip items1)
    with Cons.IH[OF skip(2)] Cons.prems(2) show ?thesis by simp
  next
    case (excluded items1 cs1)
    from schedule_loop_prefix[OF excluded(3)] have "node \<in> set st'"
      by (auto dest: set_mono_prefix)
    with excluded Cons.IH[OF excluded(3)] Cons.prems(2) show ?thesis by auto
  next
    case keyerror
    with Cons.prems(2) show ?thesis by simp
  next
    case (run_all coll items1 cs1)
    from schedule_loop_prefix[OF run_all(5)] have "node \<in> set st'"
      by (auto dest: set_mono_prefix)
    with run_all Cons.IH[OF run_all(5)] Cons.prems(2) show ?thesis by auto
  next
    case (run_some items1 cs1)
    from schedule_loop_prefix[OF run_some(4)] have "node \<in> set st'"
      by (auto dest: set_mono_prefix)
    with run_some Cons.IH[OF run_some(4)] Cons.prems(2) show ?thesis by auto
  qed
qed

lemma schedule_loop_started_untouched:
  "schedule_loop self st items = (e, st', items', cs) \<Longrightarrow> w \<in> set st \<Longrightarrow>
     map_of items' w = map_of items w"
proof (induction items arbitrary: st e st' items' cs)
  case Nil
  then show ?case by simp
next
  case (Cons a items)
  obtain node pending where a: "a = (node, pending)" by (cases a)
  from Cons.prems(1)[unfolded a] show ?case
  proof (cases rule: schedule_loop_Cons_cases)
    case (skip items1)
    with Cons.IH[OF skip(2)] Cons.prems(2) show ?thesis by (simp add: a)
  next
    case (excluded items1 cs1)
    with Cons.IH[OF excluded(3)] Cons.prems(2) show ?thesis by (simp add: a)
  next
    case keyerror
    then show ?thesis by (simp add: a)
  next
    case (run_all coll items1 cs1)
    with Cons.IH[OF run_all(5)] Cons.prems(2) show ?thesis by (auto simp: a)
  next
    case (run_some items1 cs1)
    with Cons.IH[OF run_some(4)] Cons.prems(2) show ?thesis by (simp add: a)
  qed
qed

lemma schedule_loop_absent_untouched:
  "schedule_loop self st items = (e, st', items', cs) \<Longrightarrow> w \<notin> fst ` set items \<Longrightarrow>
     w \<notin> fst ` set cs \<and> (w \<in> set st' \<longleftrightarrow> w \<in> set st)"
proof (induction items arbitrary: st e st' items' cs)
  case Nil
  then show ?case by simp
next
  case (Cons a items)
  obtain node pending where a: "a = (node, pending)" by (cases a)
  from Cons.prems(2) have w: "w \<noteq> node" "w \<notin> fst ` set items" by (auto simp: a)
  from Cons.prems(1)[unfolded a] show ?case
  proof (cases rule: schedule_loop_Cons_cases)
    case (skip items1)
    with Cons.IH[OF skip(2) w(2)] show ?thesis by simp
  next
    case (excluded items1 cs1)
    with Cons.IH[OF excluded(3) w(2)] w(1) show ?thesis by simp
  next
    case keyerror
    then show ?thesis by simp
  next
    case (run_all coll items1 cs1)
    with Cons.IH[OF run_all(5) w(2)] w(1) show ?thesis by simp
  next
    case (run_some items1 cs1)
    with Cons.IH[OF run_some(4) w(2)] w(1) show ?thesis by simp
  qed
qed

text \<open>The loop reads only the collections and the allow-list of the object.\<close>

lemma schedule_loop_cong:
  "node2collection a = node2collection b \<Longrightarrow> allowed_workers a = allowed_workers b \<Longrightarrow>
     schedule_loop a st items = schedule_loop b st items"
proof (induction items arbitrary: st)
  case Nil
  then show ?case by simp
next
  case (Cons x items)
  from Cons.prems have al: "is_allowed_worker a = is_allowed_worker b"
    by (simp add: is_allowed_worker_def fun_eq_iff)
  obtain node pending where x: "x = (node, pending)" by (cases x)
  show ?case
    unfolding x schedule_loop.simps al Cons.prems(1) Cons.IH[OF Cons.prems] ..
qed

text \<open>Run again on what it left, the loop ends the same way and sends nothing.\<close>

lemma schedule_loop_again:
  "schedule_loop self st items = (e, st', items', cs) \<Longrightarrow>
     schedule_loop self st' items' = (e, st', items', [])"
proof (induction items arbitrary: st e st' items' cs)
  case Nil
  then show ?case by simp
next
  case (Cons a items)
  obtain node pending where a: "a = (node, pending)" by (cases a)
  from Cons.prems(1)[unfolded a] show ?case
  proof (cases rule: schedule_loop_Cons_cases)
    case (skip items1)
    from schedule_loop_prefix[OF skip(2)] skip(1) have "node \<in> set st'"
      by (auto dest: set_mono_prefix)
    with skip Cons.IH[OF skip(2)] show ?thesis by simp
  next
    case (excluded items1 cs1)
    from schedule_loop_prefix[OF excluded(3)] have "node \<in> set st'"
      by (auto dest: set_mono_prefix)
    with excluded Cons.IH[OF excluded(3)] show ?thesis by simp
  next
    case keyerror
    then show ?thesis by simp
  next
    case (run_all coll items1 cs1)
    from schedule_loop_prefix[OF run_all(5)] have "node \<in> set st'"
      by (auto dest: set_mono_prefix)
    with run_all Cons.IH[OF run_all(5)] show ?thesis by simp
  next
    case (run_some items1 cs1)
    from schedule_loop_prefix[OF run_some(4)] have "node \<in> set st'"
      by (auto dest: set_mono_prefix)
    with run_some Cons.IH[OF run_some(4)] show ?thesis by simp
  qed
qed

lemma schedule_loop_no_error:
  "list_all (\<lambda>(n, p). n \<in> set st \<or> \<not> is_allowed_worker self n \<or> p \<noteq> [] \<or>
       map_of (node2collection self) n \<noteq> None) items \<Longrightarrow>
   schedule_loop self st items = (e, st', items', cs) \<Longrightarrow> e = None"
proof (induction items arbitrary: st e st' items' cs)
  case Nil
  then show ?case by simp
next
  case (Cons a items)
  obtain node pending where a: "a = (node, pending)" by (cases a)
  from Cons.prems(1) have tl: "\<And>x. list_all (\<lambda>(n, p). n \<in> set (st @ x) \<or> \<not> is_allowed_worker self n \<or> p \<noteq> [] \<or>
       map_of (node2collection self) n \<noteq> None) items"
    by (auto simp: list_all_iff)
  from Cons.prems(2)[unfolded a] show ?case
  proof (cases rule: schedule_loop_Cons_cases)
    case (skip items1)
    with Cons.IH[OF _ skip(2)] tl[of "[]"] show ?thesis by simp
  next
    case (excluded items1 cs1)
    with Cons.IH[OF tl excluded(3)] show ?thesis by simp
  next
    case keyerror
    with Cons.prems(1) show ?thesis by (simp add: a)
  next
    case (run_all coll items1 cs1)
    with Cons.IH[OF tl run_all(5)] show ?thesis by simp
  next
    case (run_some items1 cs1)
    with Cons.IH[OF tl run_some(4)] show ?thesis by simp
  qed
qed

lemma schedule_loop_worker:
  "schedule_loop self st items = (None, st', items', cs) \<Longrightarrow> distinct (map fst items) \<Longrightarrow>
   (w, pending) \<in> set items \<Longrightarrow> w \<notin> set st \<Longrightarrow>
   w \<in> set st' \<and>
   (\<exists>p' c'. expected_for self w pending = Some (p', c') \<and> map_of items' w = Some p' \<and>
      commands_to w cs = c')"
proof (induction items arbitrary: st st' items' cs)
  case Nil
  then show ?case by simp
next
  case (Cons a items)
  obtain node p0 where a: "a = (node, p0)" by (cases a)
  show ?case
  proof (cases "node = w")
    case True
    with Cons.prems(2,3) have p0: "p0 = pending" and notin: "w \<notin> fst ` set items"
      by (auto simp: a rev_image_eqI)
    from Cons.prems(1)[unfolded a True p0] show ?thesis
    proof (cases rule: schedule_loop_Cons_cases)
      case (skip items1)
      with Cons.prems(4) show ?thesis by simp
    next
      case (excluded items1 cs1)
      from schedule_loop_prefix[OF excluded(3)] have "w \<in> set st'"
        by (auto dest: set_mono_prefix)
      moreover from schedule_loop_absent_untouched[OF excluded(3) notin]
      have "commands_to w cs1 = []" by (simp add: commands_to_Nil_iff)
      ultimately show ?thesis using excluded
        by (simp add: expected_for_def commands_to_Cons)
    next
      case keyerror
      then show ?thesis by simp
    next
      case (run_all coll items1 cs1)
      from schedule_loop_prefix[OF run_all(5)] have "w \<in> set st'"
        by (auto dest: set_mono_prefix)
      moreover from schedule_loop_absent_untouched[OF run_all(5) notin]
      have "commands_to w cs1 = []" by (simp add: commands_to_Nil_iff)
      ultimately show ?thesis using run_all
        by (simp add: expected_for_def commands_to_Cons)
    next
      case (run_some items1 cs1)
      from schedule_loop_prefix[OF run_some(4)] have "w \<in> set st'"
        by (auto dest: set_mono_prefix)
      moreover from schedule_loop_absent_untouched[OF run_some(4) notin]
      have "commands_to w cs1 = []" by (simp add: commands_to_Nil_iff)
      ultimately show ?thesis using run_some
        by (simp add: expected_for_def commands_to_Cons)
    qed
  next
    case False
    with Cons.prems(2,3) have d: "distinct (map fst items)" and m: "(w, pending) \<in> set items"
      by (auto simp: a)
    from False Cons.prems(4) have ns: "w \<notin> set (st @ [node])" by simp
    from Cons.prems(1)[unfolded a] show ?thesis
    proof (cases rule: schedule_loop_Cons_cases)
      case (skip items1)
      with Cons.IH[OF skip(2) d m Cons.prems(4)] False show ?thesis by simp
    next
      case (excluded items1 cs1)
      with Cons.IH[OF excluded(3) d m ns] False show ?thesis
        by (simp add: commands_to_Cons)
    next
      case keyerror
      then show ?thesis by simp
    next
      case (run_all coll items1 cs1)
      with Cons.IH[OF run_all(5) d m ns] False show ?thesis
        by (simp add: commands_to_Cons)
    next
      case (run_some items1 cs1)
      with Cons.IH[OF run_some(4) d m ns] False show ?thesis
        by (simp add: commands_to_Cons)
    qed
  qed
qed

lemma schedule_loop_list_all:
  "schedule_loop self st items = (e, st', items', cs) \<Longrightarrow> list_all P items \<Longrightarrow>
   (\<And>node coll. map_of (node2collection self) node = Some coll \<Longrightarrow>
      P (node, py_range (length coll))) \<Longrightarrow>
   list_all P items'"
proof (induction items arbitrary: st e st' items' cs)
  case Nil
  then show ?case by simp
next
  case (Cons a items)
  obtain node pending where a: "a = (node, pending)" by (cases a)
  from Cons.prems(2) have hd: "P (node, pending)" and tl: "list_all P items"
    by (simp_all add: a)
  note IH = Cons.IH[OF _ tl Cons.prems(3)]
  from Cons.prems(1)[unfolded a] show ?case
  proof (cases rule: schedule_loop_Cons_cases)
    case (skip items1)
    with IH[OF skip(2)] hd show ?thesis by simp
  next
    case (excluded items1 cs1)
    with IH[OF excluded(3)] hd show ?thesis by simp
  next
    case keyerror
    with hd tl show ?thesis by simp
  next
    case (run_all coll items1 cs1)
    with IH[OF run_all(5)] Cons.prems(3)[OF run_all(4)] show ?thesis by simp
  next
    case (run_some items1 cs1)
    with IH[OF run_some(4)] hd show ?thesis by simp
  qed
qed

lemma schedule_loop_increasing:
  "schedule_loop self st items = (e, st', items', cs) \<Longrightarrow>
   list_all (\<lambda>(node, pending). sorted_wrt (<) pending) items \<Longrightarrow>
   list_all (\<lambda>(node, pending). sorted_wrt (<) pending) items'"
proof (induction items arbitrary: st e st' items' cs)
  case Nil
  then show ?case by simp
next
  case (Cons a items)
  obtain node pending where a: "a = (node, pending)" by (cases a)
  from Cons.prems(2) have hd: "sorted_wrt (<) pending" and
    tl: "list_all (\<lambda>(node, pending). sorted_wrt (<) pending) items"
    by (simp_all add: a)
  from Cons.prems(1)[unfolded a] show ?case
  proof (cases rule: schedule_loop_Cons_cases)
    case (skip items1)
    with Cons.IH[OF skip(2) tl] hd show ?thesis by simp
  next
    case (excluded items1 cs1)
    with Cons.IH[OF excluded(3) tl] hd show ?thesis by simp
  next
    case keyerror
    with hd tl show ?thesis by simp
  next
    case (run_all coll items1 cs1)
    with Cons.IH[OF run_all(5) tl] show ?thesis by (simp add: sorted_wrt_py_range)
  next
    case (run_some items1 cs1)
    with Cons.IH[OF run_some(4) tl] hd show ?thesis by simp
  qed
qed

text \<open>
  \<^verbatim>\<open>schedule\<close> where no lookup of a collection raises: after completion, when
  every node that is not started, is allowed and has an empty pending list has a
  recorded collection, the call returns normally, and a registered node \<open>w\<close> not
  yet started is started afterwards; it is sent one \<^verbatim>\<open>shutdown\<close> when it is not
  allowed, \<^verbatim>\<open>send_runtest_all\<close> then \<^verbatim>\<open>shutdown\<close> with the full range of its
  collection as pending list when its pending list is empty, and
  \<^verbatim>\<open>send_runtest_some\<close> with its pending list otherwise.
\<close>

lemma schedule_with_collections:
  assumes "collection_is_completed s" "distinct (map fst (node2pending s))" "dispatchable s"
    "map_of (node2pending s) w = Some pending" "w \<notin> set (started s)"
  shows "\<exists>s' cs. schedule s = (None, s', cs) \<and> w \<in> set (started s') \<and>
     (if \<not> is_allowed_worker s w then
        commands_to w cs = [shutdown] \<and> map_of (node2pending s') w = Some pending
      else if pending = [] then
        (\<exists>coll. map_of (node2collection s) w = Some coll \<and>
           map_of (node2pending s') w = Some (py_range (length coll))) \<and>
        commands_to w cs = [send_runtest_all, shutdown]
      else
        commands_to w cs = [send_runtest_some pending] \<and>
        map_of (node2pending s') w = Some pending)"
proof -
  obtain e st' items' cs where
    r: "schedule_loop s (started s) (node2pending s) = (e, st', items', cs)"
    by (cases "schedule_loop s (started s) (node2pending s)") auto
  from assms(3) have "e = None"
    unfolding dispatchable_def by (rule schedule_loop_no_error[OF _ r])
  with r have r': "schedule_loop s (started s) (node2pending s) = (None, st', items', cs)"
    by simp
  from assms(4) have m: "(w, pending) \<in> set (node2pending s)" by (rule map_of_SomeD)
  from schedule_loop_worker[OF r' assms(2) m assms(5)]
  obtain p' c' where st: "w \<in> set st'" and
    ex: "expected_for s w pending = Some (p', c')" and mp: "map_of items' w = Some p'" and
    ct: "commands_to w cs = c'"
    by blast
  have sch: "schedule s = (None, s\<lparr>node2pending := items', started := st'\<rparr>, cs)"
    using assms(1) r' by (simp add: schedule_def)
  from ex st mp ct show ?thesis
    unfolding sch
    by (auto simp: expected_for_def split: if_splits option.splits)
qed

subsection \<open>The regimes of \<^verbatim>\<open>add_node_collection\<close>\<close>

lemma handoff_loop_no_match:
  "\<forall>d\<in>set ds. gateway_spec d \<noteq> gateway_spec node \<Longrightarrow>
     handoff_loop s node collection ds = Inr (s, [])"
  by (induction ds) simp_all

lemma handoff_loop_mismatch:
  "find (\<lambda>d. gateway_spec d = gateway_spec node) ds = Some deadnode \<Longrightarrow>
   map_of (node2collection s) deadnode = Some dead_collection \<Longrightarrow>
   collection \<noteq> dead_collection \<Longrightarrow>
   handoff_loop s node collection ds =
     Inr (s, [report_collection_diff dead_collection collection
                (gateway_id deadnode) (gateway_id node)])"
  by (induction ds) (auto split: if_splits)

text \<open>
  The hand-off: the first dead node of the same spec has the reported collection, and
  its remainder moves to the reporting node. Nothing is written to
  \<^verbatim>\<open>node2collection\<close>.
\<close>

lemma handoff_loop_match:
  "find (\<lambda>d. gateway_spec d = gateway_spec node) ds = Some deadnode \<Longrightarrow>
   map_of (node2collection s) deadnode = Some collection \<Longrightarrow>
   map_of (removed2pending s) deadnode = Some pending \<Longrightarrow>
   handoff_loop s node collection ds =
     Inr (s\<lparr>removed2pending := AList.delete deadnode (removed2pending s),
            node2pending := AList.update node pending (node2pending s)\<rparr>, [])"
  by (induction ds) (auto split: if_splits)

lemma handoff_loop_cases:
  "handoff_loop s node collection ds = Inr (s', msgs) \<Longrightarrow>
     s' = s \<or>
     (\<exists>deadnode pending. map_of (removed2pending s) deadnode = Some pending \<and> msgs = [] \<and>
        s' = s\<lparr>removed2pending := AList.delete deadnode (removed2pending s),
               node2pending := AList.update node pending (node2pending s)\<rparr>)"
  by (induction ds) (auto split: if_splits option.splits)

lemma add_node_collection_cases:
  assumes "add_node_collection s node collection = Inr (s', msgs)"
  shows "(\<not> collection_is_completed s \<and> msgs = [] \<and>
          s' = s\<lparr>node2collection := AList.update node collection (node2collection s),
                 node2pending := AList.update node [] (node2pending s),
                 collection_is_completed :=
                   numnodes s \<le> length (AList.update node collection (node2collection s))\<rparr>) \<or>
         (collection_is_completed s \<and> s' = s) \<or>
         (collection_is_completed s \<and> msgs = [] \<and>
          (\<exists>deadnode pending. map_of (removed2pending s) deadnode = Some pending \<and>
            s' = s\<lparr>removed2pending := AList.delete deadnode (removed2pending s),
                   node2pending := AList.update node pending (node2pending s)\<rparr>))"
proof (cases "collection_is_completed s")
  case False
  with assms show ?thesis
    by (auto simp: add_node_collection_def Let_def split: if_splits)
next
  case True
  with assms have "handoff_loop s node collection (map fst (removed2pending s)) = Inr (s', msgs)
      \<or> s' = s"
    by (auto simp: add_node_collection_def split: if_splits)
  with True handoff_loop_cases show ?thesis by blast
qed

subsection \<open>What every call preserves\<close>

text \<open>No dictionary ever holds a key twice.\<close>

lemma after_keys_distinct:
  assumes k: "keys_distinct s"
  shows "keys_distinct (after s ev)"
proof (cases ev)
  case (Join w)
  with k show ?thesis by (simp add: add_node_def keys_distinct_def distinct_update)
next
  case (Report w coll)
  show ?thesis
  proof (cases "add_node_collection s w coll")
    case (Inl e)
    with Report k show ?thesis by simp
  next
    case (Inr r)
    obtain s' msgs where r: "r = (s', msgs)" by (cases r)
    from add_node_collection_cases[OF Inr[unfolded r]] k
    have "keys_distinct s'"
      by (auto simp: keys_distinct_def distinct_update distinct_delete)
    with Report Inr r show ?thesis by simp
  qed
next
  case (Complete w i)
  with k show ?thesis
    by (simp add: mark_test_complete_def keys_distinct_def distinct_update split: option.splits)
next
  case (Remove w)
  with k show ?thesis
    by (simp add: remove_node_def Let_def keys_distinct_def distinct_update distinct_delete
          split: option.splits list.splits)
next
  case Dispatch
  show ?thesis
  proof (cases "collection_is_completed s")
    case False
    with Dispatch k show ?thesis by (simp add: schedule_def)
  next
    case True
    obtain e st' items' cs where
      r: "schedule_loop s (started s) (node2pending s) = (e, st', items', cs)"
      by (cases "schedule_loop s (started s) (node2pending s)") auto
    from schedule_loop_keys[OF r] k True r Dispatch show ?thesis
      by (simp add: schedule_def keys_distinct_def)
  qed
qed

lemma run_keys_distinct: "keys_distinct (run (init n aw) evs)"
proof -
  have "keys_distinct s \<Longrightarrow> keys_distinct (foldl after s evs)" for s
    by (induction evs arbitrary: s) (simp_all add: after_keys_distinct)
  then show ?thesis by (simp add: run_def keys_distinct_def init_def)
qed

lemma after_started_prefix: "prefix (started s) (started (after s ev))"
proof (cases ev)
  case (Join w)
  then show ?thesis by (simp add: add_node_def)
next
  case (Report w coll)
  show ?thesis
  proof (cases "add_node_collection s w coll")
    case (Inl e)
    with Report show ?thesis by simp
  next
    case (Inr r)
    obtain s' msgs where r: "r = (s', msgs)" by (cases r)
    from add_node_collection_cases[OF Inr[unfolded r]]
    have "started s' = started s" by auto
    with Report Inr r show ?thesis by simp
  qed
next
  case (Complete w i)
  then show ?thesis by (simp add: mark_test_complete_def split: option.splits)
next
  case (Remove w)
  then show ?thesis
    by (simp add: remove_node_def Let_def split: option.splits list.splits)
next
  case Dispatch
  show ?thesis
  proof (cases "collection_is_completed s")
    case False
    with Dispatch show ?thesis by (simp add: schedule_def)
  next
    case True
    obtain e st' items' cs where
      r: "schedule_loop s (started s) (node2pending s) = (e, st', items', cs)"
      by (cases "schedule_loop s (started s) (node2pending s)") auto
    from schedule_loop_prefix[OF r] True r Dispatch show ?thesis
      by (simp add: schedule_def)
  qed
qed

lemma after_increasing:
  assumes p: "pending_increasing s"
  shows "pending_increasing (after s ev)"
proof (cases ev)
  case (Join w)
  with p show ?thesis
    by (simp add: add_node_def pending_increasing_def list_all_update)
next
  case (Report w coll)
  show ?thesis
  proof (cases "add_node_collection s w coll")
    case (Inl e)
    with Report p show ?thesis by simp
  next
    case (Inr r)
    obtain s' msgs where r: "r = (s', msgs)" by (cases r)
    from add_node_collection_cases[OF Inr[unfolded r]] p
    have "pending_increasing s'"
      by (auto simp: pending_increasing_def list_all_update list_all_delete
            dest: list_all_map_of)
    with Report Inr r show ?thesis by simp
  qed
next
  case (Complete w i)
  show ?thesis
  proof (cases "map_of (node2pending s) w")
    case None
    with Complete p show ?thesis by (simp add: mark_test_complete_def)
  next
    case (Some pending)
    with p have "sorted_wrt (<) pending"
      by (auto simp: pending_increasing_def dest: list_all_map_of)
    with Complete Some p show ?thesis
      by (simp add: mark_test_complete_def pending_increasing_def list_all_update
            sorted_wrt_remove1_less)
  qed
next
  case (Remove w)
  show ?thesis
  proof (cases "map_of (node2pending s) w")
    case None
    with Remove p show ?thesis by (simp add: remove_node_def)
  next
    case (Some pending)
    with p have "sorted_wrt (<) pending"
      by (auto simp: pending_increasing_def dest: list_all_map_of)
    with Remove Some p show ?thesis
      by (auto simp: remove_node_def Let_def pending_increasing_def
            split: option.splits list.splits intro!: list_all_update list_all_delete)
  qed
next
  case Dispatch
  show ?thesis
  proof (cases "collection_is_completed s")
    case False
    with Dispatch p show ?thesis by (simp add: schedule_def)
  next
    case True
    obtain e st' items' cs where
      r: "schedule_loop s (started s) (node2pending s) = (e, st', items', cs)"
      by (cases "schedule_loop s (started s) (node2pending s)") auto
    from schedule_loop_increasing[OF r] p True r Dispatch show ?thesis
      by (simp add: schedule_def pending_increasing_def)
  qed
qed

lemma run_increasing: "pending_increasing s \<Longrightarrow> pending_increasing (run s evs)"
  unfolding run_def by (induction evs arbitrary: s) (simp_all add: after_increasing)

text \<open>Once collection is complete, no call writes to \<^verbatim>\<open>node2collection\<close>.\<close>

lemma after_node2collection_frozen:
  assumes c: "collection_is_completed s"
  shows "node2collection (after s ev) = node2collection s"
proof (cases ev)
  case (Join w)
  then show ?thesis by (simp add: add_node_def)
next
  case (Report w coll)
  show ?thesis
  proof (cases "add_node_collection s w coll")
    case (Inl e)
    with Report show ?thesis by simp
  next
    case (Inr r)
    obtain s' msgs where r: "r = (s', msgs)" by (cases r)
    from add_node_collection_cases[OF Inr[unfolded r]] c
    have "node2collection s' = node2collection s" by auto
    with Report Inr r show ?thesis by simp
  qed
next
  case (Complete w i)
  then show ?thesis by (simp add: mark_test_complete_def split: option.splits)
next
  case (Remove w)
  then show ?thesis
    by (simp add: remove_node_def Let_def split: option.splits list.splits)
next
  case Dispatch
  then show ?thesis by (simp add: schedule_def split: prod.splits)
qed

text \<open>
  The bound of the indices by the node's own collection is kept by every call but a
  report that arrives once collection is complete.
\<close>

lemma index_ok_py_range:
  "map_of (node2collection s) node = Some coll \<Longrightarrow> index_ok s (node, py_range (length coll))"
  by (auto simp: index_ok_def py_range_def list_all_iff)

lemma index_ok_subset:
  "index_ok s (node, pending) \<Longrightarrow> set p' \<subseteq> set pending \<Longrightarrow> index_ok s (node, p')"
  by (auto simp: index_ok_def list_all_iff)

lemma after_indices_in_range:
  assumes k: "distinct (map fst (node2pending s))" and i: "indices_in_range s"
    and ev: "\<And>w coll. ev = Report w coll \<Longrightarrow> \<not> collection_is_completed s"
  shows "indices_in_range (after s ev)"
proof -
  from i have i': "list_all (index_ok s) (node2pending s)"
    by (simp add: indices_in_range_def)
  have goal: "indices_in_range t \<longleftrightarrow> list_all (index_ok t) (node2pending t)" for t
    by (simp add: indices_in_range_def)
  show ?thesis
  proof (cases ev)
    case (Join w)
    have "index_ok s (w, [])" by (simp add: index_ok_def)
    with i' have "list_all (index_ok s) (AList.update w [] (node2pending s))"
      by (simp add: list_all_update)
    moreover have "index_ok (s\<lparr>node2pending := x\<rparr>) = index_ok s" for x
      by (simp add: index_ok_def)
    ultimately show ?thesis using Join i by (simp add: goal add_node_def)
  next
    case (Report w coll)
    from ev[OF Report] have nc: "\<not> collection_is_completed s" .
    show ?thesis
    proof (cases "map_of (node2pending s) w = None")
      case True
      with Report i show ?thesis by (simp add: add_node_collection_def)
    next
      case False
      define t where "t = s\<lparr>node2collection := AList.update w coll (node2collection s),
                node2pending := AList.update w [] (node2pending s),
                collection_is_completed :=
                  (if length (AList.update w coll (node2collection s)) \<ge> numnodes s then True
                   else collection_is_completed s)\<rparr>"
      from False obtain p0 where "map_of (node2pending s) w = Some p0" by auto
      with nc Report have a: "after s ev = t"
        by (simp add: add_node_collection_def Let_def t_def)
      have "index_ok t x" if x: "x \<in> set (node2pending t)" for x
      proof -
        obtain n p where np: "x = (n, p)" by (cases x)
        from x np have "(n, p) \<in> set (AList.update w [] (node2pending s))" by (simp add: t_def)
        from set_update_distinct[OF k this] show ?thesis
        proof
          assume "n = w \<and> p = []"
          then show ?thesis by (simp add: np index_ok_def)
        next
          assume b: "n \<noteq> w \<and> (n, p) \<in> set (node2pending s)"
          with i' have "index_ok s (n, p)" by (auto simp: list_all_iff)
          with b show ?thesis by (simp add: np index_ok_def t_def update_conv')
        qed
      qed
      then show ?thesis by (simp add: a goal list_all_iff)
    qed
  next
    case (Complete w idx)
    show ?thesis
    proof (cases "map_of (node2pending s) w")
      case None
      with Complete i show ?thesis by (simp add: mark_test_complete_def)
    next
      case (Some pending)
      with i' have "index_ok s (w, pending)" by (auto dest: list_all_map_of)
      then have "index_ok s (w, remove1 idx pending)"
        by (rule index_ok_subset) (rule set_remove1_subset)
      with i' have "list_all (index_ok s) (AList.update w (remove1 idx pending) (node2pending s))"
        by (simp add: list_all_update)
      moreover have "index_ok (s\<lparr>node2pending := x\<rparr>) = index_ok s" for x
        by (simp add: index_ok_def)
      ultimately show ?thesis using Complete Some i
        by (simp add: goal mark_test_complete_def)
    qed
  next
    case (Remove w)
    have f: "index_ok (s\<lparr>node2pending := x\<rparr>) = index_ok s"
      "index_ok (s\<lparr>node2pending := x, removed2pending := y\<rparr>) = index_ok s" for x y
      by (simp_all add: index_ok_def)
    from i' have "list_all (index_ok s) (AList.delete w (node2pending s))"
      by (rule list_all_delete)
    with Remove i show ?thesis
      by (simp add: goal remove_node_def Let_def f split: option.splits list.splits)
  next
    case Dispatch
    show ?thesis
    proof (cases "collection_is_completed s")
      case False
      with Dispatch i show ?thesis by (simp add: schedule_def)
    next
      case True
      obtain e st' items' cs where
        r: "schedule_loop s (started s) (node2pending s) = (e, st', items', cs)"
        by (cases "schedule_loop s (started s) (node2pending s)") auto
      from schedule_loop_list_all[OF r i'] have "list_all (index_ok s) items'"
        by (simp add: index_ok_py_range)
      moreover have "index_ok (s\<lparr>node2pending := x, started := y\<rparr>) = index_ok s" for x y
        by (simp add: index_ok_def)
      ultimately show ?thesis using True r Dispatch
        by (simp add: goal schedule_def)
    qed
  qed
qed

text \<open>
  \<^verbatim>\<open>remove_node\<close> of a registered node whose collection is recorded and holds
  the head index: the entry goes, the head's identifier is returned, a non-empty rest
  is stashed.
\<close>

lemma remove_node_registered:
  assumes "map_of (node2pending s) node = Some pending"
  shows "map_of (node2pending (snd (remove_node s node))) node = None \<and>
     (pending = [] \<longrightarrow>
        remove_node s node = (Inr None, s\<lparr>node2pending := AList.delete node (node2pending s)\<rparr>)) \<and>
     (\<forall>h rest coll crashitem.
        pending = h # rest \<and> map_of (node2collection s) node = Some coll \<and>
        py_getitem coll h = Some crashitem \<longrightarrow>
        remove_node s node =
          (Inr (Some crashitem),
           s\<lparr>node2pending := AList.delete node (node2pending s),
             removed2pending :=
               (if rest \<noteq> [] then AList.update node rest (removed2pending s)
                else removed2pending s)\<rparr>))"
  using assms
  by (auto simp: remove_node_def Let_def delete_conv' split: option.splits list.splits)

subsection \<open>C1: a report after completion that matches no dead node\<close>

text \<open>
  C1, as stated, says that such a report is stored in \<^verbatim>\<open>node2collection\<close>.
  Counterexample: one expected worker \<open>w0\<close> reports, which completes collection;
  \<open>w1\<close> joins and reports while \<^verbatim>\<open>_removed2pending\<close> is empty. The call
  returns the object unchanged, and \<open>w1\<close> has no entry in \<^verbatim>\<open>node2collection\<close>.
\<close>

theorem late_report_is_not_stored:
  "collection_is_completed (run (init 1 {}) [Join w0, Report w0 [''t1''], Join w1]) \<and>
   removed2pending (run (init 1 {}) [Join w0, Report w0 [''t1''], Join w1]) = [] \<and>
   map_of (node2pending (run (init 1 {}) [Join w0, Report w0 [''t1''], Join w1])) w1 = Some [] \<and>
   add_node_collection (run (init 1 {}) [Join w0, Report w0 [''t1''], Join w1]) w1 [''t1''] =
     Inr (run (init 1 {}) [Join w0, Report w0 [''t1''], Join w1], []) \<and>
   map_of (node2collection (run (init 1 {}) [Join w0, Report w0 [''t1''], Join w1])) w1 = None"
  by (simp add: op_defs)

text \<open>
  C1, amended: for a registered node, once collection is complete, when no key of
  \<^verbatim>\<open>_removed2pending\<close> has the spec of the node, \<^verbatim>\<open>add_node_collection\<close>
  returns normally, logs nothing and leaves the whole object unchanged; so nothing is
  stored for the node and its pending list stays as it was (empty for a node that has
  only joined).
\<close>

theorem late_report_without_match_is_noop:
  assumes "map_of (node2pending s) node \<noteq> None" "collection_is_completed s"
    "\<forall>d\<in>fst ` set (removed2pending s). gateway_spec d \<noteq> gateway_spec node"
  shows "add_node_collection s node collection = Inr (s, [])"
  using assms by (simp add: add_node_collection_def handoff_loop_no_match)

text \<open>
  Witness for C1: \<open>w3\<close>, of another spec, died with the remainder \<open>[1, 2]\<close>; the
  late report of \<open>w1\<close> matches no dead node and changes nothing.
\<close>

theorem late_report_without_match_is_noop_witness:
  "add_node_collection
     (run (init 2 {}) [Join w0, Join w3, Report w0 [''a'', ''b'', ''c''],
        Report w3 [''a'', ''b'', ''c''], Dispatch, Remove w3, Join w1])
     w1 [''a'', ''b'', ''c''] =
   Inr (run (init 2 {}) [Join w0, Join w3, Report w0 [''a'', ''b'', ''c''],
        Report w3 [''a'', ''b'', ''c''], Dispatch, Remove w3, Join w1], []) \<and>
   removed2pending (run (init 2 {}) [Join w0, Join w3, Report w0 [''a'', ''b'', ''c''],
        Report w3 [''a'', ''b'', ''c''], Dispatch, Remove w3, Join w1]) = [(w3, [1, 2])]"
proof -
  let ?s = "run (init 2 {}) [Join w0, Join w3, Report w0 [''a'', ''b'', ''c''],
        Report w3 [''a'', ''b'', ''c''], Dispatch, Remove w3, Join w1]"
  have st: "?s = \<lparr>numnodes = 2,
      node2collection = [(w0, [''a'', ''b'', ''c'']), (w3, [''a'', ''b'', ''c''])],
      node2pending = [(w0, [0, 1, 2]), (w1, [])], started = [w0, w3],
      removed2pending = [(w3, [1, 2])], collection_is_completed = True,
      allowed_workers = {}\<rparr>"
    by (simp add: op_defs)
  have h1: "map_of (node2pending ?s) w1 \<noteq> None" unfolding st by simp
  have h2: "collection_is_completed ?s" unfolding st by simp
  have h3: "\<forall>d\<in>fst ` set (removed2pending ?s). gateway_spec d \<noteq> gateway_spec w1"
    unfolding st by simp
  from late_report_without_match_is_noop[OF h1 h2 h3, of "[''a'', ''b'', ''c'']"] st show ?thesis by simp
qed

subsection \<open>C2: indices of a pending list are indices of the node's own collection\<close>

text \<open>
  C2 says that in every reachable state each index of \<open>pending[w]\<close> is below the
  length of \<open>collections[w]\<close>, also for a replacement that inherited a remainder.
  The code breaks it at the hand-off: \<open>w0\<close> is sent three items and dies, \<open>[1, 2]\<close>
  is stashed; \<open>w1\<close> of the same spec joins and reports the same collection. The
  hand-off installs \<open>[1, 2]\<close> as the pending list of \<open>w1\<close> and records no
  collection for it, so the indices index nothing. (\<open>after_indices_in_range\<close>
  above shows that every call but a report after completion keeps the bound.)
\<close>

theorem handoff_leaves_pending_without_collection:
  "indices_in_range (run (init 1 {}) [Join w0, Report w0 [''t1'', ''t2'', ''t3''], Dispatch,
      Remove w0, Join w1]) \<and>
   run (init 1 {}) [Join w0, Report w0 [''t1'', ''t2'', ''t3''], Dispatch,
      Remove w0, Join w1, Report w1 [''t1'', ''t2'', ''t3'']] =
     \<lparr>numnodes = 1, node2collection = [(w0, [''t1'', ''t2'', ''t3''])],
      node2pending = [(w1, [1, 2])], started = [w0], removed2pending = [],
      collection_is_completed = True, allowed_workers = {}\<rparr> \<and>
   \<not> indices_in_range (run (init 1 {}) [Join w0, Report w0 [''t1'', ''t2'', ''t3''], Dispatch,
      Remove w0, Join w1, Report w1 [''t1'', ''t2'', ''t3'']])"
  by (simp add: op_defs indices_in_range_def index_ok_def)

subsection \<open>C3: what \<^verbatim>\<open>schedule\<close> does for a node it has not started\<close>

text \<open>
  C3 says that \<^verbatim>\<open>schedule\<close>, called after completion, starts every node that
  is not started, and sends a node that is allowed and has an empty pending list
  everything, then \<^verbatim>\<open>shutdown\<close>. The code does neither for a node that
  reports after completion and is handed nothing: \<open>w0\<close>, the only expected worker,
  is sent its one item, dies on it (nothing is left to stash), and \<open>w1\<close> joins and
  reports in its place. The collection of \<open>w1\<close> is not recorded, and
  \<^verbatim>\<open>schedule\<close> raises \<^verbatim>\<open>KeyError\<close> at \<^verbatim>\<open>self.node2collection[node]\<close>:
  the object is as before, \<open>w1\<close> is not started and nothing is sent. By
  \<open>after_node2collection_frozen\<close> no later call records the collection.
  (\<open>schedule_with_collections\<close> above is the claim where the collections are
  recorded.)
\<close>

theorem schedule_raises_without_collection:
  "run (init 1 {}) [Join w0, Report w0 [''t1''], Dispatch, Remove w0, Join w1, Report w1 [''t1'']] =
     \<lparr>numnodes = 1, node2collection = [(w0, [''t1''])],
      node2pending = [(w1, [])], started = [w0], removed2pending = [],
      collection_is_completed = True, allowed_workers = {}\<rparr> \<and>
   is_allowed_worker
     (run (init 1 {}) [Join w0, Report w0 [''t1''], Dispatch, Remove w0, Join w1,
        Report w1 [''t1'']]) w1 \<and>
   schedule (run (init 1 {}) [Join w0, Report w0 [''t1''], Dispatch, Remove w0, Join w1,
        Report w1 [''t1'']]) =
     (Some KeyError,
      run (init 1 {}) [Join w0, Report w0 [''t1''], Dispatch, Remove w0, Join w1,
        Report w1 [''t1'']], [])"
  by (simp add: op_defs)

subsection \<open>C4: \<^verbatim>\<open>remove_node\<close>\<close>

text \<open>
  C4 says that removing a registered node with a non-empty pending list returns the
  identifier of the head index in the node's collection and stashes a non-empty rest.
  For the replacement \<open>w1\<close> of the scenario of C2, with pending list \<open>[1, 2]\<close> and
  no recorded collection, the code deletes the entry of \<^verbatim>\<open>node2pending\<close> and then
  raises \<^verbatim>\<open>KeyError\<close>: no identifier is returned and the rest \<open>[2]\<close> is lost.
  (\<open>remove_node_registered\<close> above is the claim where the collection is recorded.)
\<close>

theorem remove_node_of_replacement_raises:
  "map_of (node2pending (run (init 1 {}) [Join w0, Report w0 [''t1'', ''t2'', ''t3''], Dispatch,
      Remove w0, Join w1, Report w1 [''t1'', ''t2'', ''t3'']])) w1 = Some [1, 2] \<and>
   map_of (node2collection (run (init 1 {}) [Join w0, Report w0 [''t1'', ''t2'', ''t3''], Dispatch,
      Remove w0, Join w1, Report w1 [''t1'', ''t2'', ''t3'']])) w1 = None \<and>
   remove_node (run (init 1 {}) [Join w0, Report w0 [''t1'', ''t2'', ''t3''], Dispatch,
      Remove w0, Join w1, Report w1 [''t1'', ''t2'', ''t3'']]) w1 =
     (Inl KeyError,
      \<lparr>numnodes = 1, node2collection = [(w0, [''t1'', ''t2'', ''t3''])],
       node2pending = [], started = [w0], removed2pending = [],
       collection_is_completed = True, allowed_workers = {}\<rparr>)"
  by (simp add: op_defs)

subsection \<open>C5: a report after completion whose collection differs\<close>

text \<open>
  C5, as stated, is about any dead node of the same spec whose recorded collection
  differs from the reported one. Counterexample: \<open>w0\<close> and \<open>w1\<close>, of one spec,
  reported different collections and died. \<open>w2\<close> reports the collection of \<open>w0\<close>:
  the dead node \<open>w1\<close> has the same spec and another collection, yet the loop stops
  at \<open>w0\<close>, hands its remainder to \<open>w2\<close> and logs nothing.
\<close>

theorem mismatch_with_later_dead_node_hands_off:
  "run (init 2 {}) [Join w0, Join w1, Report w0 [''a'', ''b'', ''c''],
      Report w1 [''x'', ''y'', ''z''], Dispatch, Remove w0, Remove w1, Join w2] =
     \<lparr>numnodes = 2,
      node2collection = [(w0, [''a'', ''b'', ''c'']), (w1, [''x'', ''y'', ''z''])],
      node2pending = [(w2, [])], started = [w0, w1],
      removed2pending = [(w0, [1, 2]), (w1, [1, 2])],
      collection_is_completed = True, allowed_workers = {}\<rparr> \<and>
   gateway_spec w1 = gateway_spec w2 \<and>
   add_node_collection
     \<lparr>numnodes = 2,
      node2collection = [(w0, [''a'', ''b'', ''c'']), (w1, [''x'', ''y'', ''z''])],
      node2pending = [(w2, [])], started = [w0, w1],
      removed2pending = [(w0, [1, 2]), (w1, [1, 2])],
      collection_is_completed = True, allowed_workers = {}\<rparr> w2 [''a'', ''b'', ''c''] =
   Inr (\<lparr>numnodes = 2,
      node2collection = [(w0, [''a'', ''b'', ''c'']), (w1, [''x'', ''y'', ''z''])],
      node2pending = [(w2, [1, 2])], started = [w0, w1],
      removed2pending = [(w1, [1, 2])],
      collection_is_completed = True, allowed_workers = {}\<rparr>, [])"
  by (simp add: op_defs)

text \<open>
  C5, amended: for a registered node, once collection is complete, when the first key
  of \<^verbatim>\<open>_removed2pending\<close> (in insertion order) with the spec of the node has a
  recorded collection different from the reported one, \<^verbatim>\<open>add_node_collection\<close>
  leaves the whole object unchanged and logs exactly one message, built from the dead
  node's collection, the reported collection, the dead node's id and the node's id.
\<close>

theorem mismatch_with_first_match_is_logged:
  assumes "map_of (node2pending s) node \<noteq> None" "collection_is_completed s"
    "find (\<lambda>d. gateway_spec d = gateway_spec node) (map fst (removed2pending s)) = Some deadnode"
    "map_of (node2collection s) deadnode = Some dead_collection"
    "collection \<noteq> dead_collection"
  shows "add_node_collection s node collection =
     Inr (s, [report_collection_diff dead_collection collection
                (gateway_id deadnode) (gateway_id node)])"
proof -
  from assms(3) have "removed2pending s \<noteq> []" by auto
  with assms show ?thesis
    by (simp add: add_node_collection_def handoff_loop_mismatch)
qed

text \<open>
  Witness for C5: \<open>w0\<close> died with the remainder \<open>[1, 2]\<close>; \<open>w1\<close> reports a
  collection whose last item differs.
\<close>

theorem mismatch_with_first_match_is_logged_witness:
  "add_node_collection
     (run (init 1 {}) [Join w0, Report w0 [''a'', ''b'', ''c''], Dispatch, Remove w0, Join w1])
     w1 [''a'', ''b'', ''x''] =
   Inr (run (init 1 {}) [Join w0, Report w0 [''a'', ''b'', ''c''], Dispatch, Remove w0, Join w1],
        [report_collection_diff [''a'', ''b'', ''c''] [''a'', ''b'', ''x''] ''gw0'' ''gw1''])"
proof -
  let ?s = "run (init 1 {}) [Join w0, Report w0 [''a'', ''b'', ''c''], Dispatch, Remove w0, Join w1]"
  have st: "?s = \<lparr>numnodes = 1, node2collection = [(w0, [''a'', ''b'', ''c''])],
      node2pending = [(w1, [])], started = [w0], removed2pending = [(w0, [1, 2])],
      collection_is_completed = True, allowed_workers = {}\<rparr>"
    by (simp add: op_defs)
  have h1: "map_of (node2pending ?s) w1 \<noteq> None" unfolding st by simp
  have h2: "collection_is_completed ?s" unfolding st by simp
  have h3: "find (\<lambda>d. gateway_spec d = gateway_spec w1) (map fst (removed2pending ?s)) = Some w0"
    unfolding st by simp
  have h4: "map_of (node2collection ?s) w0 = Some [''a'', ''b'', ''c'']" unfolding st by simp
  have h5: "[''a'', ''b'', ''x''] \<noteq> [''a'', ''b'', ''c'']" by simp
  from mismatch_with_first_match_is_logged[OF h1 h2 h3 h4 h5] show ?thesis by simp
qed

subsection \<open>C6: \<^verbatim>\<open>tests_finished\<close>\<close>

text \<open>
  C6: \<^verbatim>\<open>tests_finished\<close> is true exactly when collection is complete,
  \<^verbatim>\<open>_removed2pending\<close> is empty and every pending list of
  \<^verbatim>\<open>node2pending\<close> has fewer than two entries.
\<close>

theorem tests_finished_iff: "tests_finished s \<longleftrightarrow>
     collection_is_completed s \<and> removed2pending s = [] \<and>
     (\<forall>(node, pending) \<in> set (node2pending s). length pending < 2)"
  by (auto simp: tests_finished_def tests_finished_loop_iff)

text \<open>
  Witness for C6: with two items dispatched the run is not finished; after one
  completion it is.
\<close>

theorem tests_finished_iff_witness:
  "tests_finished (run (init 1 {}) [Join w0, Report w0 [''a'', ''b''], Dispatch, Complete w0 0]) \<and>
   \<not> tests_finished (run (init 1 {}) [Join w0, Report w0 [''a'', ''b''], Dispatch])"
  using tests_finished_iff[of "run (init 1 {}) [Join w0, Report w0 [''a'', ''b''], Dispatch, Complete w0 0]"]
    tests_finished_iff[of "run (init 1 {}) [Join w0, Report w0 [''a'', ''b''], Dispatch]"]
  by (simp add: op_defs)

subsection \<open>C7: \<^verbatim>\<open>schedule\<close> acts once on each node\<close>

text \<open>
  C7: however a call of \<^verbatim>\<open>schedule\<close> ends, calling it again on the object it
  left ends the same way, sends nothing and changes nothing. The call extends
  \<^verbatim>\<open>_started\<close> at its end and adds no node twice; a node already started is
  sent nothing and keeps its pending list; every command goes to a node that was not
  started before the call and is started after it; and no later call of any kind
  removes a node from \<^verbatim>\<open>_started\<close>.
\<close>

theorem schedule_idempotent:
  assumes sch: "schedule s = (e, s', cs)"
  shows "schedule s' = (e, s', []) \<and>
     prefix (started s) (started s') \<and>
     (distinct (started s) \<longrightarrow> distinct (started s')) \<and>
     (\<forall>n\<in>set (started s).
        commands_to n cs = [] \<and> map_of (node2pending s') n = map_of (node2pending s) n) \<and>
     (\<forall>(n, c)\<in>set cs. n \<notin> set (started s) \<and> n \<in> set (started s')) \<and>
     (\<forall>ev. prefix (started s') (started (after s' ev)))"
proof (cases "collection_is_completed s")
  case False
  with sch show ?thesis
    by (auto simp: schedule_def commands_to_def after_started_prefix)
next
  case True
  obtain e1 st' items' cs1 where
    r: "schedule_loop s (started s) (node2pending s) = (e1, st', items', cs1)"
    by (cases "schedule_loop s (started s) (node2pending s)") auto
  with True sch have eq: "e = e1" "cs = cs1" "s' = s\<lparr>node2pending := items', started := st'\<rparr>"
    by (auto simp: schedule_def)
  have "schedule_loop s' st' items' = schedule_loop s st' items'"
    by (rule schedule_loop_cong) (simp_all add: eq)
  with schedule_loop_again[OF r] True have 1: "schedule s' = (e, s', [])"
    by (simp add: schedule_def eq)
  have 2: "prefix (started s) (started s')"
    using schedule_loop_prefix[OF r] by (simp add: eq)
  have 3: "distinct (started s) \<longrightarrow> distinct (started s')"
    using schedule_loop_distinct[OF r] by (simp add: eq)
  have 5: "\<forall>(n, c)\<in>set cs. n \<notin> set (started s) \<and> n \<in> set (started s')"
    using schedule_loop_commands[OF r] by (auto simp: eq)
  have 4: "\<forall>n\<in>set (started s).
        commands_to n cs = [] \<and> map_of (node2pending s') n = map_of (node2pending s) n"
  proof
    fix n assume n: "n \<in> set (started s)"
    with 5 have "n \<notin> fst ` set cs" by auto
    then have "commands_to n cs = []" by (simp add: commands_to_Nil_iff)
    moreover from schedule_loop_started_untouched[OF r n]
    have "map_of (node2pending s') n = map_of (node2pending s) n" by (simp add: eq)
    ultimately show "commands_to n cs = [] \<and> map_of (node2pending s') n = map_of (node2pending s) n"
      by simp
  qed
  from 1 2 3 4 5 after_started_prefix show ?thesis by blast
qed

text \<open>Witness for C7: the second pass after a full dispatch to \<open>w0\<close>.\<close>

theorem schedule_idempotent_witness:
  "schedule (run (init 1 {}) [Join w0, Report w0 [''a'', ''b'']]) =
     (None, run (init 1 {}) [Join w0, Report w0 [''a'', ''b''], Dispatch],
      [(w0, send_runtest_all), (w0, shutdown)]) \<and>
   schedule (run (init 1 {}) [Join w0, Report w0 [''a'', ''b''], Dispatch]) =
     (None, run (init 1 {}) [Join w0, Report w0 [''a'', ''b''], Dispatch], [])"
proof -
  have h: "schedule (run (init 1 {}) [Join w0, Report w0 [''a'', ''b'']]) =
     (None, run (init 1 {}) [Join w0, Report w0 [''a'', ''b''], Dispatch],
      [(w0, send_runtest_all), (w0, shutdown)])"
    by (simp add: op_defs)
  from schedule_idempotent[OF h] h show ?thesis by simp
qed

subsection \<open>C8: a report before completion\<close>

text \<open>
  C8: for a registered node, while collection is not complete,
  \<^verbatim>\<open>add_node_collection\<close> stores the collection, sets the node's pending list
  to the empty list, and collection is complete afterwards exactly when the number of
  recorded collections has reached \<^verbatim>\<open>numnodes\<close>. And no call of any kind, whether
  it returns or raises, resets \<^verbatim>\<open>collection_is_completed\<close>.
\<close>

theorem report_before_completion:
  "(map_of (node2pending s) node \<noteq> None \<and> \<not> collection_is_completed s \<longrightarrow>
     (\<exists>s'. add_node_collection s node collection = Inr (s', []) \<and>
        map_of (node2collection s') node = Some collection \<and>
        map_of (node2pending s') node = Some [] \<and>
        (collection_is_completed s' \<longleftrightarrow> numnodes s \<le> length (node2collection s')))) \<and>
   (collection_is_completed s \<longrightarrow> collection_is_completed (after s ev))"
proof (intro conjI impI)
  assume "map_of (node2pending s) node \<noteq> None \<and> \<not> collection_is_completed s"
  then show "\<exists>s'. add_node_collection s node collection = Inr (s', []) \<and>
        map_of (node2collection s') node = Some collection \<and>
        map_of (node2pending s') node = Some [] \<and>
        (collection_is_completed s' \<longleftrightarrow> numnodes s \<le> length (node2collection s'))"
    by (simp add: add_node_collection_def Let_def update_conv')
next
  assume c: "collection_is_completed s"
  show "collection_is_completed (after s ev)"
  proof (cases ev)
    case (Join w)
    with c show ?thesis by (simp add: add_node_def)
  next
    case (Report w coll)
    show ?thesis
    proof (cases "add_node_collection s w coll")
      case (Inl e)
      with c Report show ?thesis by simp
    next
      case (Inr r)
      obtain s' msgs where r: "r = (s', msgs)" by (cases r)
      from add_node_collection_cases[OF Inr[unfolded r]] c
      have "collection_is_completed s'" by auto
      with Report Inr r show ?thesis by simp
    qed
  next
    case (Complete w i)
    with c show ?thesis by (simp add: mark_test_complete_def split: option.splits)
  next
    case (Remove w)
    with c show ?thesis
      by (simp add: remove_node_def Let_def split: option.splits list.splits)
  next
    case Dispatch
    with c show ?thesis by (simp add: schedule_def split: prod.splits)
  qed
qed

text \<open>
  Witness for C8: the second of two expected reports completes collection, and the
  flag stays set when a node is removed.
\<close>

theorem report_before_completion_witness:
  "\<exists>s'. add_node_collection (run (init 2 {}) [Join w0, Join w1, Report w0 [''a'']]) w1 [''a''] =
       Inr (s', []) \<and>
     map_of (node2collection s') w1 = Some [''a''] \<and> map_of (node2pending s') w1 = Some [] \<and>
     collection_is_completed s' \<and>
     \<not> collection_is_completed (run (init 2 {}) [Join w0, Join w1, Report w0 [''a'']]) \<and>
     collection_is_completed (after s' (Remove w0))"
proof -
  let ?s = "run (init 2 {}) [Join w0, Join w1, Report w0 [''a'']]"
  have st: "?s = \<lparr>numnodes = 2, node2collection = [(w0, [''a''])],
      node2pending = [(w0, []), (w1, [])], started = [], removed2pending = [],
      collection_is_completed = False, allowed_workers = {}\<rparr>"
    by (simp add: op_defs)
  have h: "map_of (node2pending ?s) w1 \<noteq> None \<and> \<not> collection_is_completed ?s"
    unfolding st by simp
  from report_before_completion[of ?s w1 "[''a'']"] h obtain s' where
    a: "add_node_collection ?s w1 [''a''] = Inr (s', [])"
       "map_of (node2collection s') w1 = Some [''a'']" "map_of (node2pending s') w1 = Some []"
       "collection_is_completed s' \<longleftrightarrow> numnodes ?s \<le> length (node2collection s')"
    by blast
  from a(1) have "length (node2collection s') = 2"
    unfolding st by (auto simp: add_node_collection_def)
  with a(4) have c: "collection_is_completed s'" unfolding st by simp
  with report_before_completion[of s' w1 "[]" "Remove w0"] have "collection_is_completed (after s' (Remove w0))"
    by blast
  with a c h show ?thesis by blast
qed

subsection \<open>C9: violated preconditions raise\<close>

text \<open>
  C9: \<^verbatim>\<open>add_node\<close> of a registered node raises \<^verbatim>\<open>AssertionError\<close>;
  \<^verbatim>\<open>schedule\<close> before completion raises \<^verbatim>\<open>AssertionError\<close>, leaves the object
  as it is and sends nothing; \<^verbatim>\<open>mark_test_complete\<close> of an index that is not in
  the node's pending list raises \<^verbatim>\<open>ValueError\<close>; \<^verbatim>\<open>remove_node\<close> and
  \<^verbatim>\<open>mark_test_complete\<close> of a node that is not registered raise
  \<^verbatim>\<open>KeyError\<close>.
\<close>

theorem precondition_violations_raise:
  "(map_of (node2pending s) node \<noteq> None \<longrightarrow> add_node s node = Inl AssertionError) \<and>
   (\<not> collection_is_completed s \<longrightarrow> schedule s = (Some AssertionError, s, [])) \<and>
   (\<forall>pending. map_of (node2pending s) node = Some pending \<and> item_index \<notin> set pending \<longrightarrow>
      mark_test_complete s node item_index = Inl ValueError) \<and>
   (map_of (node2pending s) node = None \<longrightarrow>
      remove_node s node = (Inl KeyError, s) \<and> mark_test_complete s node item_index = Inl KeyError)"
  by (simp add: add_node_def schedule_def mark_test_complete_def remove_node_def)

text \<open>Witness for C9: each of the five violations on one object.\<close>

theorem precondition_violations_raise_witness:
  "add_node (run (init 2 {}) [Join w0, Report w0 [''a''], Join w1]) w0 = Inl AssertionError \<and>
   schedule (run (init 2 {}) [Join w0, Report w0 [''a''], Join w1]) =
     (Some AssertionError, run (init 2 {}) [Join w0, Report w0 [''a''], Join w1], []) \<and>
   mark_test_complete (run (init 2 {}) [Join w0, Report w0 [''a''], Join w1]) w0 0 = Inl ValueError \<and>
   remove_node (run (init 2 {}) [Join w0, Report w0 [''a''], Join w1]) w2 =
     (Inl KeyError, run (init 2 {}) [Join w0, Report w0 [''a''], Join w1]) \<and>
   mark_test_complete (run (init 2 {}) [Join w0, Report w0 [''a''], Join w1]) w2 0 = Inl KeyError"
proof -
  let ?s = "run (init 2 {}) [Join w0, Report w0 [''a''], Join w1]"
  have st: "?s = \<lparr>numnodes = 2, node2collection = [(w0, [''a''])],
      node2pending = [(w0, []), (w1, [])], started = [], removed2pending = [],
      collection_is_completed = False, allowed_workers = {}\<rparr>"
    by (simp add: op_defs)
  have h1: "map_of (node2pending ?s) w0 \<noteq> None" unfolding st by simp
  have h2: "\<not> collection_is_completed ?s" unfolding st by simp
  have h3: "map_of (node2pending ?s) w0 = Some [] \<and> (0::int) \<notin> set []" unfolding st by simp
  have h4: "map_of (node2pending ?s) w2 = None" unfolding st by simp
  from precondition_violations_raise[of ?s w0 0] h1 h2 h3 precondition_violations_raise[of ?s w2 0] h4 show ?thesis by blast
qed

subsection \<open>C10: pending lists are strictly increasing\<close>

text \<open>
  C10: every pending list, in \<^verbatim>\<open>node2pending\<close> and in
  \<^verbatim>\<open>_removed2pending\<close>, is strictly increasing (so its indices are distinct):
  this holds of a new scheduler, every call keeps it whether it returns or raises, and
  so it holds after every run.
\<close>

theorem pending_lists_increasing:
  "pending_increasing (init n aw) \<and>
   (pending_increasing s \<longrightarrow> pending_increasing (after s ev)) \<and>
   pending_increasing (run (init n aw) evs)"
proof -
  have i: "pending_increasing (init n aw)" by (simp add: pending_increasing_def init_def)
  from i run_increasing after_increasing show ?thesis by blast
qed

text \<open>
  Witness for C10: four items are dispatched, the second completes, the node dies on
  the first; the stashed rest is \<open>[2, 3]\<close>.
\<close>

theorem pending_lists_increasing_witness:
  "pending_increasing (run (init 1 {}) [Join w0, Report w0 [''a'', ''b'', ''c'', ''d''], Dispatch,
     Complete w0 1, Remove w0]) \<and>
   removed2pending (run (init 1 {}) [Join w0, Report w0 [''a'', ''b'', ''c'', ''d''], Dispatch,
     Complete w0 1, Remove w0]) = [(w0, [2, 3])]"
proof -
  have "pending_increasing (init 1 {})" using pending_lists_increasing[of 1 "{}"] by blast
  have "pending_increasing (run (init 1 {}) [Join w0, Report w0 [''a'', ''b'', ''c'', ''d''], Dispatch,
     Complete w0 1, Remove w0])"
    using pending_lists_increasing[of 1 "{}"] by blast
  then show ?thesis by (simp add: op_defs)
qed

end
